theory Spec2Isabelle
  imports Main "HOL-Library.Word"
begin

unbundle bit_operations_syntax

section \<open>The sparse offset index of a log segment\<close>

text \<open>
  A shallow embedding of \<^verbatim>\<open>src/v/storage/segment_offset_index.cc\<close>.
  \<^item> \<^verbatim>\<open>model::offset\<close> is a 64-bit signed integer (Redpanda declares it over \<^verbatim>\<open>int64_t\<close>):
    a \<open>64 word\<close> compared with the signed order \<open>\<le>s\<close>; subtraction and addition wrap.
  \<^item> \<^verbatim>\<open>size_t\<close> is a \<open>64 word\<close> compared with the unsigned order \<open>\<le>\<close>.
  \<^item> The entries are pairs of \<^verbatim>\<open>uint32_t\<close>; the conversions to \<^verbatim>\<open>uint32_t\<close> keep the low
    32 bits (\<open>ucast\<close>), the conversions from it extend with zeros (\<open>ucast\<close>).
  \<^item> The backing file \<^verbatim>\<open>_out\<close> is its contents together with the list of the operations
    issued on it so far, so that "no file I/O" is a statement about the state.
  \<^item> \<^verbatim>\<open>vassert\<close> aborts the process: every operation that starts with one returns
    \<open>Inl\<close> of the failure and no state.
  \<^item> A Seastar future is the value it resolves to: \<open>ready\<close> or \<open>failed\<close>.
\<close>

type_synonym u8 = "8 word"
type_synonym u32 = "32 word"
type_synonym size_t = "64 word"
type_synonym offset = "64 word"

datatype file_op = file_size | file_read | file_truncate | file_write | file_flush | file_close

datatype 'a future = ready 'a | failed file_op

datatype vassert_failure =
    cannot_track_below_base offset offset
  | lower_bound_below_base offset offset
  | truncate_below_base offset offset

text \<open>
  What the file system does to one asynchronous operation of the index: the step of
  \<^verbatim>\<open>flush\<close> that fails, with the number of bytes of the buffer that had reached the file
  where that matters, or the step of \<^verbatim>\<open>materialize_index\<close> that fails.
\<close>

datatype flush_fault = truncate_fails | write_fails nat | flush_fails nat | close_fails

datatype load_fault = size_fails | read_fails

text \<open>
  Modelled from the spec: the class declaration \<^verbatim>\<open>storage/segment_offset_index.h\<close> is not
  among the sources. Section 3 of the specification lists the members: the handle of the
  backing file, the base offset, the step, the accumulated bytes, the dirty flag, the
  last seen offset and the entries of two 32-bit fields. Their types are those that the
  signatures, the comparator and the casts of the source file show.
\<close>

record segment_offset_index =
  out_data :: "u8 list"
  out_ops :: "file_op list"
  base :: offset
  step :: size_t
  acc :: size_t
  needs_persistence :: bool
  last_seen_offset :: offset
  positions :: "(u32 \<times> u32) list"

subsection \<open>The binary format\<close>

definition u32_to_bytes :: "u32 \<Rightarrow> u8 list" where
  "u32_to_bytes w = [ucast w, ucast (drop_bit 8 w), ucast (drop_bit 16 w), ucast (drop_bit 24 w)]"

definition u32_from_bytes :: "u8 \<Rightarrow> u8 \<Rightarrow> u8 \<Rightarrow> u8 \<Rightarrow> u32" where
  "u32_from_bytes b0 b1 b2 b3 =
     ucast b0 OR push_bit 8 (ucast b1) OR push_bit 16 (ucast b2) OR push_bit 24 (ucast b3)"

text \<open>
  Modelled from the spec: \<^verbatim>\<open>offset_index_to_buf\<close> of
  \<^verbatim>\<open>storage/segment_offset_index_utils.h\<close> is not among the sources. Section 6 of the
  specification: a flat, headerless sequence of 8-byte records in the order of the
  entries, each the 4-byte little-endian \<open>relative_offset\<close> followed by the 4-byte
  \<open>byte_position\<close>.
\<close>

fun offset_index_to_buf :: "(u32 \<times> u32) list \<Rightarrow> u8 list" where
  "offset_index_to_buf [] = []"
| "offset_index_to_buf (p # ps) =
     u32_to_bytes (fst p) @ u32_to_bytes (snd p) @ offset_index_to_buf ps"

text \<open>
  Modelled from the spec: \<^verbatim>\<open>offset_index_from_buf\<close> of
  \<^verbatim>\<open>storage/segment_offset_index_utils.h\<close> is not among the sources. Section 6 of the
  specification: the length of the file alone gives the number of entries, 8 bytes each;
  bytes after the last whole record give no entry.
\<close>

fun offset_index_from_buf :: "u8 list \<Rightarrow> (u32 \<times> u32) list" where
  "offset_index_from_buf (a0 # a1 # a2 # a3 # b0 # b1 # b2 # b3 # buf) =
     (u32_from_bytes a0 a1 a2 a3, u32_from_bytes b0 b1 b2 b3) # offset_index_from_buf buf"
| "offset_index_from_buf _ = []"

subsection \<open>The constructor\<close>

text \<open>
  The constructor takes the open file, here its contents, the base offset and the step.

  Modelled from the spec: the initial values of the other members are in the class
  declaration, which is not among the sources. Section 3 of the specification: a fresh
  index has no entries; no byte is accumulated and nothing awaits persistence. The
  specification gives no initial value of \<^verbatim>\<open>_last_seen_offset\<close>: it is a parameter here.
\<close>

definition make_index :: "u8 list \<Rightarrow> offset \<Rightarrow> size_t \<Rightarrow> offset \<Rightarrow> segment_offset_index" where
  "make_index f b st l =
     \<lparr>out_data = f, out_ops = [], base = b, step = st, acc = 0,
      needs_persistence = False, last_seen_offset = l, positions = []\<rparr>"

subsection \<open>\<^verbatim>\<open>maybe_track\<close>\<close>

definition relative :: "segment_offset_index \<Rightarrow> offset \<Rightarrow> u32" where
  "relative s o' = ucast (o' - base s)"

definition maybe_track ::
  "offset \<Rightarrow> size_t \<Rightarrow> size_t \<Rightarrow> segment_offset_index \<Rightarrow> vassert_failure + segment_offset_index"
where
  "maybe_track o' pos data_size s =
     (if \<not> base s \<le>s o' then Inl (cannot_track_below_base o' (base s))
      else if positions s \<noteq> [] \<and> relative s o' < fst (last (positions s)) then Inr s
      else
        let s1 = s\<lparr>last_seen_offset := o', acc := acc s + data_size\<rparr>
        in if step s1 \<le> acc s1
           then Inr (s1\<lparr>acc := 0,
                        positions := positions s1 @ [(relative s o', ucast pos)],
                        needs_persistence := True\<rparr>)
           else Inr s1)"

subsection \<open>\<^verbatim>\<open>std::lower_bound\<close> with \<^verbatim>\<open>base_comparator\<close>\<close>

text \<open>
  The bisection of the C++ standard library over the range of \<open>len\<close> elements that starts
  at index \<open>first\<close>; the comparator is \<^verbatim>\<open>p.first < needle\<close>.
\<close>

function lower_bound_loop :: "(u32 \<times> u32) list \<Rightarrow> u32 \<Rightarrow> nat \<Rightarrow> nat \<Rightarrow> nat" where
  "lower_bound_loop xs needle first len =
     (if 0 < len
      then if fst (xs ! (first + len div 2)) < needle
           then lower_bound_loop xs needle (first + len div 2 + 1) (len - len div 2 - 1)
           else lower_bound_loop xs needle first (len div 2)
      else first)"
  by pat_completeness auto
termination
  by (relation "measure (\<lambda>(xs, needle, first, len). len)") auto

definition std_lower_bound :: "(u32 \<times> u32) list \<Rightarrow> u32 \<Rightarrow> nat" where
  "std_lower_bound xs needle = lower_bound_loop xs needle 0 (length xs)"

subsection \<open>\<^verbatim>\<open>lower_bound_pair\<close>\<close>

definition entry_at :: "segment_offset_index \<Rightarrow> nat \<Rightarrow> offset \<times> size_t" where
  "entry_at s it = (base s + ucast (fst (positions s ! it)), ucast (snd (positions s ! it)))"

definition lower_bound_pair ::
  "offset \<Rightarrow> segment_offset_index \<Rightarrow> vassert_failure + (offset \<times> size_t) option"
where
  "lower_bound_pair o' s =
     (if \<not> base s \<le>s o' then Inl (lower_bound_below_base o' (base s))
      else if positions s = [] then Inr None
      else
        let i = relative s o';
            it0 = std_lower_bound (positions s) i;
            it1 = (if it0 = length (positions s) then it0 - 1 else it0)
        in if fst (positions s ! it1) \<le> i then Inr (Some (entry_at s it1))
           else
             let it2 = (if 0 < it1 then it1 - 1 else it1)
             in if fst (positions s ! it2) \<le> i then Inr (Some (entry_at s it2))
                else Inr None)"

subsection \<open>\<^verbatim>\<open>flush\<close> and \<^verbatim>\<open>materialize_index\<close>\<close>

text \<open>
  The continuation of \<^verbatim>\<open>flush\<close>: truncate the file to length zero, encode the entries,
  write the buffer through an output stream on a duplicate of the handle, flush the
  stream, close it. A step that fails ends the chain with a failed future. The flag is
  already cleared in the state these steps run in. Duplicating the handle does not touch
  the file and is not recorded among the operations.
\<close>

definition issue :: "file_op list \<Rightarrow> segment_offset_index \<Rightarrow> segment_offset_index" where
  "issue os s = s\<lparr>out_ops := out_ops s @ os\<rparr>"

definition flush_io ::
  "flush_fault option \<Rightarrow> segment_offset_index \<Rightarrow> unit future \<times> segment_offset_index"
where
  "flush_io fault s =
     (let b = offset_index_to_buf (positions s) in
      case fault of
        Some truncate_fails \<Rightarrow> (failed file_truncate, issue [file_truncate] s)
      | Some (write_fails n) \<Rightarrow>
          (failed file_write, issue [file_truncate, file_write] (s\<lparr>out_data := take n b\<rparr>))
      | Some (flush_fails n) \<Rightarrow>
          (failed file_flush,
           issue [file_truncate, file_write, file_flush] (s\<lparr>out_data := take n b\<rparr>))
      | Some close_fails \<Rightarrow>
          (failed file_close,
           issue [file_truncate, file_write, file_flush, file_close] (s\<lparr>out_data := b\<rparr>))
      | None \<Rightarrow>
          (ready (),
           issue [file_truncate, file_write, file_flush, file_close] (s\<lparr>out_data := b\<rparr>)))"

definition flush ::
  "flush_fault option \<Rightarrow> segment_offset_index \<Rightarrow> unit future \<times> segment_offset_index"
where
  "flush fault s =
     (if \<not> needs_persistence s then (ready (), s)
      else flush_io fault (s\<lparr>needs_persistence := False\<rparr>))"

definition materialize_index ::
  "load_fault option \<Rightarrow> segment_offset_index \<Rightarrow> bool future \<times> segment_offset_index"
where
  "materialize_index fault s =
     (case fault of
        Some size_fails \<Rightarrow> (failed file_size, issue [file_size] s)
      | Some read_fails \<Rightarrow> (failed file_read, issue [file_size, file_read] s)
      | None \<Rightarrow>
          (let buf = out_data s; s1 = issue [file_size, file_read] s
           in if buf = [] then (ready False, s1)
              else (ready True, s1\<lparr>positions := offset_index_from_buf buf\<rparr>)))"

subsection \<open>\<^verbatim>\<open>truncate\<close>\<close>

text \<open>The statements of \<^verbatim>\<open>truncate\<close> between the assertion and the call of \<^verbatim>\<open>flush\<close>.\<close>

definition truncate_positions :: "offset \<Rightarrow> segment_offset_index \<Rightarrow> segment_offset_index" where
  "truncate_positions o' s =
     (let s1 = s\<lparr>last_seen_offset := o'\<rparr>;
          it = std_lower_bound (positions s1) (relative s o')
      in if it \<noteq> length (positions s1)
         then s1\<lparr>needs_persistence := True, positions := take it (positions s1)\<rparr>
         else s1)"

definition truncate ::
  "flush_fault option \<Rightarrow> offset \<Rightarrow> segment_offset_index \<Rightarrow>
   vassert_failure + (unit future \<times> segment_offset_index)"
where
  "truncate fault o' s =
     (if \<not> base s \<le>s o' then Inl (truncate_below_base o' (base s))
      else Inr (flush fault (truncate_positions o' s)))"

subsection \<open>Sequences of operations\<close>

text \<open>
  The operations a caller can issue on an index, each with what the file system does to
  it; a sequence of them runs from left to right and ends at the first assertion that
  fails.
\<close>

datatype operation =
    Track offset size_t size_t
  | Lookup offset
  | Truncate offset "flush_fault option"
  | Load "load_fault option"
  | Flush "flush_fault option"

fun apply_operation :: "operation \<Rightarrow> segment_offset_index \<Rightarrow> vassert_failure + segment_offset_index" where
  "apply_operation (Track o' pos data_size) s = maybe_track o' pos data_size s"
| "apply_operation (Lookup o') s =
     (case lower_bound_pair o' s of Inl e \<Rightarrow> Inl e | Inr r \<Rightarrow> Inr s)"
| "apply_operation (Truncate o' fault) s =
     (case truncate fault o' s of Inl e \<Rightarrow> Inl e | Inr r \<Rightarrow> Inr (snd r))"
| "apply_operation (Load fault) s = Inr (snd (materialize_index fault s))"
| "apply_operation (Flush fault) s = Inr (snd (flush fault s))"

fun run :: "operation list \<Rightarrow> segment_offset_index \<Rightarrow> vassert_failure + segment_offset_index" where
  "run [] s = Inr s"
| "run (x # xs) s = (case apply_operation x s of Inl e \<Rightarrow> Inl e | Inr s' \<Rightarrow> run xs s')"

text \<open>
  The entries in memory are sorted by relative offset (duplicates allowed), and so are
  those that the contents of the file decode to.
\<close>

definition entries_sorted :: "segment_offset_index \<Rightarrow> bool" where
  "entries_sorted s \<longleftrightarrow>
     sorted (map fst (positions s)) \<and> sorted (map fst (offset_index_from_buf (out_data s)))"

section \<open>The bisection finds the partition point\<close>

declare lower_bound_loop.simps [simp del]

lemma lower_bound_loop_range:
  "first + len \<le> length xs \<Longrightarrow>
   first \<le> lower_bound_loop xs i first len \<and> lower_bound_loop xs i first len \<le> first + len"
proof (induction xs i first len rule: lower_bound_loop.induct)
  case (1 xs needle first len)
  show ?case
  proof (cases "0 < len")
    case False
    then show ?thesis by (simp add: lower_bound_loop.simps)
  next
    case True
    show ?thesis
    proof (cases "fst (xs ! (first + len div 2)) < needle")
      case lt: True
      have "first + len div 2 + 1 + (len - len div 2 - 1) \<le> length xs"
        using "1.prems" True by simp
      from "1.IH"(1) [OF True lt this] True lt show ?thesis
        by (subst (1 2) lower_bound_loop.simps) simp
    next
      case ge: False
      have "first + len div 2 \<le> length xs"
        using "1.prems" by simp
      from "1.IH"(2) [OF True ge this]
      have "first \<le> lower_bound_loop xs needle first (len div 2)"
        and "lower_bound_loop xs needle first (len div 2) \<le> first + len"
        by (simp, linarith)
      then show ?thesis using True ge
        by (subst (1 2) lower_bound_loop.simps) simp
    qed
  qed
qed

lemma lower_bound_loop_all_less:
  "\<forall>p\<in>set xs. fst p < i \<Longrightarrow> first + len \<le> length xs \<Longrightarrow>
   lower_bound_loop xs i first len = first + len"
proof (induction xs i first len rule: lower_bound_loop.induct)
  case (1 xs needle first len)
  show ?case
  proof (cases "0 < len")
    case False
    then show ?thesis by (simp add: lower_bound_loop.simps)
  next
    case True
    have mid: "first + len div 2 < length xs"
      using "1.prems"(2) True by (simp add: less_le_trans)
    then have lt: "fst (xs ! (first + len div 2)) < needle"
      using "1.prems"(1) nth_mem by blast
    have "first + len div 2 + 1 + (len - len div 2 - 1) \<le> length xs"
      using "1.prems"(2) True by simp
    from "1.IH"(1) [OF True lt "1.prems"(1) this] True lt show ?thesis
      by (subst lower_bound_loop.simps) simp
  qed
qed

lemma lower_bound_loop_partition:
  "sorted (map fst xs) \<Longrightarrow> first + len \<le> length xs \<Longrightarrow>
   (\<forall>k<first. fst (xs ! k) < i) \<Longrightarrow>
   (\<forall>k. first + len \<le> k \<and> k < length xs \<longrightarrow> i \<le> fst (xs ! k)) \<Longrightarrow>
   (\<forall>k<lower_bound_loop xs i first len. fst (xs ! k) < i) \<and>
   (\<forall>k. lower_bound_loop xs i first len \<le> k \<and> k < length xs \<longrightarrow> i \<le> fst (xs ! k))"
proof (induction xs i first len rule: lower_bound_loop.induct)
  case (1 xs needle first len)
  note srt = "1.prems"(1) and bnd = "1.prems"(2) and lo = "1.prems"(3) and hi = "1.prems"(4)
  have mono: "fst (xs ! j) \<le> fst (xs ! k)" if "j \<le> k" "k < length xs" for j k
    using srt that by (simp add: sorted_iff_nth_mono)
  show ?case
  proof (cases "0 < len")
    case False
    then show ?thesis using lo hi by (simp add: lower_bound_loop.simps)
  next
    case True
    let ?m = "first + len div 2"
    have mid: "?m < length xs"
      using bnd True by (simp add: less_le_trans)
    show ?thesis
    proof (cases "fst (xs ! ?m) < needle")
      case lt: True
      have b: "?m + 1 + (len - len div 2 - 1) \<le> length xs"
        using bnd True by simp
      have l: "\<forall>k<?m + 1. fst (xs ! k) < needle"
      proof (intro allI impI)
        fix k assume "k < ?m + 1"
        then have "fst (xs ! k) \<le> fst (xs ! ?m)" using mono [of k ?m] mid by simp
        then show "fst (xs ! k) < needle" using lt by simp
      qed
      have h: "\<forall>k. ?m + 1 + (len - len div 2 - 1) \<le> k \<and> k < length xs \<longrightarrow> needle \<le> fst (xs ! k)"
        using hi True by simp
      from "1.IH"(1) [OF True lt srt b l h] True lt show ?thesis
        by (subst (1 2) lower_bound_loop.simps) simp
    next
      case ge: False
      have b: "first + len div 2 \<le> length xs"
        using bnd by simp
      have h: "\<forall>k. first + len div 2 \<le> k \<and> k < length xs \<longrightarrow> needle \<le> fst (xs ! k)"
      proof (intro allI impI)
        fix k assume k: "first + len div 2 \<le> k \<and> k < length xs"
        then have "fst (xs ! ?m) \<le> fst (xs ! k)" using mono [of ?m k] by simp
        then show "needle \<le> fst (xs ! k)" using ge by simp
      qed
      from "1.IH"(2) [OF True ge srt b lo h] True ge show ?thesis
        by (subst (1 2) lower_bound_loop.simps) simp
    qed
  qed
qed

lemma std_lower_bound_le: "std_lower_bound xs i \<le> length xs"
  using lower_bound_loop_range [of 0 "length xs" xs i] by (simp add: std_lower_bound_def)

lemma std_lower_bound_all_less:
  "\<forall>p\<in>set xs. fst p < i \<Longrightarrow> std_lower_bound xs i = length xs"
  using lower_bound_loop_all_less [of xs i 0 "length xs"] by (simp add: std_lower_bound_def)

lemma std_lower_bound_partition:
  assumes "sorted (map fst xs)"
  shows "(\<forall>k. k < std_lower_bound xs i \<longrightarrow> fst (xs ! k) < i) \<and>
         (\<forall>k. std_lower_bound xs i \<le> k \<and> k < length xs \<longrightarrow> i \<le> fst (xs ! k))"
proof -
  have b: "0 + length xs \<le> length xs" by simp
  have l: "\<forall>k<0. fst (xs ! k) < i" by simp
  have h: "\<forall>k. 0 + length xs \<le> k \<and> k < length xs \<longrightarrow> i \<le> fst (xs ! k)" by auto
  show ?thesis
    unfolding std_lower_bound_def by (rule lower_bound_loop_partition [OF assms b l h])
qed

lemma std_lower_bound_below:
  "sorted (map fst xs) \<Longrightarrow> k < std_lower_bound xs i \<Longrightarrow> fst (xs ! k) < i"
  using std_lower_bound_partition [of xs i] by blast

lemma std_lower_bound_above:
  "sorted (map fst xs) \<Longrightarrow> std_lower_bound xs i \<le> k \<Longrightarrow> k < length xs \<Longrightarrow> i \<le> fst (xs ! k)"
  using std_lower_bound_partition [of xs i] by blast

lemma std_lower_bound_takeWhile:
  assumes "sorted (map fst xs)"
  shows "std_lower_bound xs i = length (takeWhile (\<lambda>p. fst p < i) xs)"
proof -
  let ?n = "std_lower_bound xs i" and ?P = "\<lambda>p. fst p < i"
  have le: "?n \<le> length xs" by (rule std_lower_bound_le)
  have "?n \<le> length (takeWhile ?P xs)"
    using std_lower_bound_below [OF assms] le by (intro length_takeWhile_less_P_nth) auto
  moreover have "\<not> ?n < length (takeWhile ?P xs)"
  proof
    assume a: "?n < length (takeWhile ?P xs)"
    then have "?P (takeWhile ?P xs ! ?n)" using nth_mem set_takeWhileD by metis
    then have "?P (xs ! ?n)" using a by (simp add: takeWhile_nth)
    moreover have "?n < length xs" using a length_takeWhile_le [of ?P xs] by simp
    ultimately show False using std_lower_bound_above [OF assms, of i ?n] by simp
  qed
  ultimately show ?thesis by simp
qed

lemma take_std_lower_bound:
  assumes "sorted (map fst xs)"
  shows "take (std_lower_bound xs i) xs = takeWhile (\<lambda>p. fst p < i) xs"
  by (simp add: std_lower_bound_takeWhile [OF assms] takeWhile_eq_take [symmetric])

lemma filter_below_sorted:
  "sorted (map fst xs) \<Longrightarrow> filter (\<lambda>p. fst p < i) xs = takeWhile (\<lambda>p. fst p < (i::u32)) xs"
proof (induction xs)
  case Nil
  then show ?case by simp
next
  case (Cons x xs)
  show ?case
  proof (cases "fst x < i")
    case True
    with Cons show ?thesis by simp
  next
    case False
    have "\<forall>p\<in>set xs. \<not> fst p < i"
    proof
      fix p assume "p \<in> set xs"
      then have "fst x \<le> fst p" using Cons.prems by auto
      with False show "\<not> fst p < i" by simp
    qed
    then have "filter (\<lambda>p. fst p < i) xs = []" by (simp add: filter_empty_conv)
    with False show ?thesis by simp
  qed
qed

section \<open>What \<^verbatim>\<open>flush\<close> leaves alone\<close>

lemma flush_io_frame:
  "needs_persistence (snd (flush_io fault s)) = needs_persistence s"
  "positions (snd (flush_io fault s)) = positions s"
  "last_seen_offset (snd (flush_io fault s)) = last_seen_offset s"
  "base (snd (flush_io fault s)) = base s"
  "step (snd (flush_io fault s)) = step s"
  "acc (snd (flush_io fault s)) = acc s"
  by (simp_all add: flush_io_def issue_def Let_def split: option.split flush_fault.split)

lemma flush_frame:
  "positions (snd (flush fault s)) = positions s"
  "last_seen_offset (snd (flush fault s)) = last_seen_offset s"
  "base (snd (flush fault s)) = base s"
  "\<not> needs_persistence (snd (flush fault s))"
  by (simp_all add: flush_def flush_io_frame)

lemma flush_io_issues: "out_ops (snd (flush_io fault s)) \<noteq> out_ops s"
  by (simp add: flush_io_def issue_def Let_def split: option.split flush_fault.split)

lemma flush_issues: "(out_ops (snd (flush fault s)) = out_ops s) = (\<not> needs_persistence s)"
  using flush_io_issues [of fault "s\<lparr>needs_persistence := False\<rparr>"] by (simp add: flush_def)

lemma flush_io_result: "fst (flush_io fault s) = ready () \<longleftrightarrow> fault = None"
  by (simp add: flush_io_def issue_def Let_def split: option.split flush_fault.split)

section \<open>Encoding and decoding\<close>

lemma u32_bytes_roundtrip:
  "u32_from_bytes (ucast w) (ucast (drop_bit 8 w)) (ucast (drop_bit 16 w)) (ucast (drop_bit 24 w)) = w"
proof (rule bit_word_eqI)
  fix n assume "n < LENGTH(32)"
  then consider "n < 8" | "8 \<le> n \<and> n < 16" | "16 \<le> n \<and> n < 24" | "24 \<le> n \<and> n < 32"
    by fastforce
  then show "bit (u32_from_bytes (ucast w) (ucast (drop_bit 8 w)) (ucast (drop_bit 16 w))
                   (ucast (drop_bit 24 w))) n = bit w n"
    unfolding u32_from_bytes_def by cases (auto simp: bit_simps)
qed

lemma from_buf_entry:
  "offset_index_from_buf (u32_to_bytes a @ u32_to_bytes b @ buf) = (a, b) # offset_index_from_buf buf"
  by (simp add: u32_to_bytes_def u32_bytes_roundtrip)

lemma from_buf_to_buf_append:
  "offset_index_from_buf (offset_index_to_buf ps @ buf) = ps @ offset_index_from_buf buf"
  by (induction ps) (simp_all add: from_buf_entry)

lemma from_buf_to_buf: "offset_index_from_buf (offset_index_to_buf ps) = ps"
  using from_buf_to_buf_append [of ps "[]"] by simp

lemma length_to_buf: "length (offset_index_to_buf ps) = 8 * length ps"
  by (induction ps) (simp_all add: u32_to_bytes_def)

lemma from_buf_short: "length buf < 8 \<Longrightarrow> offset_index_from_buf buf = []"
  by (cases buf rule: offset_index_from_buf.cases) simp_all

lemma from_buf_take_to_buf:
  "offset_index_from_buf (take n (offset_index_to_buf ps)) = take (n div 8) ps"
proof (induction ps arbitrary: n)
  case Nil
  then show ?case by simp
next
  case (Cons p ps)
  let ?e = "u32_to_bytes (fst p) @ u32_to_bytes (snd p)"
  have len: "length ?e = 8" by (simp add: u32_to_bytes_def)
  show ?case
  proof (cases "n < 8")
    case True
    then have "length (take n (offset_index_to_buf (p # ps))) < 8" by simp
    then have "offset_index_from_buf (take n (offset_index_to_buf (p # ps))) = []"
      by (rule from_buf_short)
    with True show ?thesis by simp
  next
    case False
    then obtain m where m: "n = 8 + m" by (metis le_add_diff_inverse not_less)
    have "take n (offset_index_to_buf (p # ps)) = ?e @ take m (offset_index_to_buf ps)"
      using len m by simp
    then have "offset_index_from_buf (take n (offset_index_to_buf (p # ps)))
               = p # offset_index_from_buf (take m (offset_index_to_buf ps))"
      using from_buf_entry [of "fst p" "snd p"] by simp
    also have "\<dots> = p # take (m div 8) ps" by (simp add: Cons.IH)
    also have "\<dots> = take (n div 8) (p # ps)"
    proof -
      have "n div 8 = Suc (m div 8)" using m by presburger
      then show ?thesis by simp
    qed
    finally show ?thesis .
  qed
qed

lemma materialize_index_flag:
  "needs_persistence (snd (materialize_index fault s)) = needs_persistence s"
  by (simp add: materialize_index_def issue_def Let_def split: option.split load_fault.split)

lemma flush_None_data:
  "needs_persistence s \<Longrightarrow> out_data (snd (flush None s)) = offset_index_to_buf (positions s)"
  by (simp add: flush_def flush_io_def issue_def)

lemma to_buf_empty_iff: "offset_index_to_buf ps = [] \<longleftrightarrow> ps = []"
  using length_to_buf [of ps] by (cases ps) auto

section \<open>Relative offsets\<close>

lemma diff_as_int: "(T :: 64 word) - b = word_of_int (sint T - sint b)"
  by (simp only: of_int_diff of_int_sint scast_id)

lemma ucast_wi: "(ucast (word_of_int d :: 64 word) :: 32 word) = word_of_int d"
  by (rule ucast_down_wi) (simp add: is_down)

lemma relative_uint_mod: "uint (relative s T) = (sint T - sint (base s)) mod 2 ^ 32"
proof -
  have "relative s T = word_of_int (sint T - sint (base s))"
    unfolding relative_def by (simp only: diff_as_int ucast_wi)
  then show ?thesis by (simp only: uint_word_of_int) simp
qed

lemma relative_uint:
  assumes "base s \<le>s T" and "sint T - sint (base s) < 2 ^ 32"
  shows "uint (relative s T) = sint T - sint (base s)"
proof -
  have "0 \<le> sint T - sint (base s)" using assms(1) by (simp add: word_sle_eq)
  then show ?thesis using assms(2) by (simp add: relative_uint_mod)
qed

lemma sint_ucast_u32: "sint (ucast (w :: 32 word) :: 64 word) = uint w"
proof -
  have u0: "0 \<le> uint w" by simp
  have u1: "uint w < 4294967296" using uint_lt2p [of w] by simp
  have "- 9223372036854775808 \<le> uint w \<and> uint w < 9223372036854775808"
    using u0 u1 by linarith
  then show ?thesis
    by (simp add: sint_uint is_up uint_up_ucast signed_take_bit_int_eq_self_iff)
qed

lemma sint_add_ucast:
  assumes "sint (b :: 64 word) + uint (w :: 32 word) < 2 ^ 63"
  shows "sint (b + ucast w) = sint b + uint w"
proof -
  have lo: "- 9223372036854775808 \<le> sint b" using sint_ge [of b] by simp
  have u0: "0 \<le> uint w" by simp
  have "- 9223372036854775808 \<le> sint b + uint w" using lo u0 by linarith
  then have "- (2 ^ 63) \<le> sint b + uint w" by simp
  then have "signed_take_bit 63 (sint b + uint w) = sint b + uint w"
    using assms by (simp only: signed_take_bit_int_eq_self)
  then show ?thesis by (simp add: sint_word_add sint_ucast_u32)
qed

section \<open>What the locator returns on sorted entries\<close>

lemma lower_bound_pair_sorted:
  assumes srt: "sorted (map fst (positions s))" and ok: "base s \<le>s T"
    and ne: "positions s \<noteq> []"
  shows "lower_bound_pair T s =
          Inr (if std_lower_bound (positions s) (relative s T) < length (positions s) \<and>
                  fst (positions s ! std_lower_bound (positions s) (relative s T)) = relative s T
               then Some (entry_at s (std_lower_bound (positions s) (relative s T)))
               else if 0 < std_lower_bound (positions s) (relative s T)
               then Some (entry_at s (std_lower_bound (positions s) (relative s T) - 1))
               else None)"
proof -
  let ?ps = "positions s" and ?i = "relative s T"
  let ?n = "std_lower_bound ?ps ?i"
  have le: "?n \<le> length ?ps" by (rule std_lower_bound_le)
  have len: "0 < length ?ps" using ne by simp
  have below: "fst (?ps ! k) < ?i" if "k < ?n" for k
    using srt that by (rule std_lower_bound_below)
  have above: "?i \<le> fst (?ps ! k)" if "?n \<le> k" "k < length ?ps" for k
    using srt that by (rule std_lower_bound_above)
  show ?thesis
  proof (cases "?n = length ?ps")
    case True
    then have "fst (?ps ! (?n - 1)) < ?i" using below [of "?n - 1"] len by simp
    then have "fst (?ps ! (length ?ps - 1)) \<le> ?i" using True by simp
    then show ?thesis using True ok ne len
      by (simp add: lower_bound_pair_def Let_def)
  next
    case False
    then have lt: "?n < length ?ps" using le by simp
    have ge: "?i \<le> fst (?ps ! ?n)" using above [of ?n] lt by simp
    show ?thesis
    proof (cases "fst (?ps ! ?n) = ?i")
      case True
      then show ?thesis using False lt ok ne
        by (simp add: lower_bound_pair_def Let_def)
    next
      case neq: False
      then have gt: "\<not> fst (?ps ! ?n) \<le> ?i" using ge by simp
      show ?thesis
      proof (cases "0 < ?n")
        case True
        then have "fst (?ps ! (?n - 1)) \<le> ?i" using below [of "?n - 1"] by simp
        then show ?thesis using True False neq gt ok ne
          by (simp add: lower_bound_pair_def Let_def)
      next
        case False
        then show ?thesis using neq gt ok ne lt
          by (simp add: lower_bound_pair_def Let_def)
      qed
    qed
  qed
qed

lemma lower_bound_pair_relative:
  assumes srt: "sorted (map fst (positions s))" and ok: "base s \<le>s T"
  shows "((\<forall>p\<in>set (positions s). relative s T < fst p) \<longrightarrow> lower_bound_pair T s = Inr None) \<and>
         ((\<exists>p\<in>set (positions s). fst p \<le> relative s T) \<longrightarrow>
            (\<exists>p\<in>set (positions s).
               lower_bound_pair T s = Inr (Some (base s + ucast (fst p), ucast (snd p))) \<and>
               fst p \<le> relative s T \<and>
               (\<forall>q\<in>set (positions s). fst q \<le> relative s T \<longrightarrow> fst q \<le> fst p)))"
proof (cases "positions s = []")
  case True
  then show ?thesis using ok by (simp add: lower_bound_pair_def)
next
  case ne: False
  let ?ps = "positions s" and ?i = "relative s T"
  let ?n = "std_lower_bound ?ps ?i"
  note res = lower_bound_pair_sorted [OF srt ok ne]
  have le: "?n \<le> length ?ps" by (rule std_lower_bound_le)
  have below: "fst (?ps ! k) < ?i" if "k < ?n" for k
    using srt that by (rule std_lower_bound_below)
  have above: "?i \<le> fst (?ps ! k)" if "?n \<le> k" "k < length ?ps" for k
    using srt that by (rule std_lower_bound_above)
  have mono: "fst (?ps ! j) \<le> fst (?ps ! k)" if "j \<le> k" "k < length ?ps" for j k
    using srt that by (simp add: sorted_iff_nth_mono)
  have none: "lower_bound_pair T s = Inr None" if all: "\<forall>p\<in>set ?ps. ?i < fst p"
  proof -
    have "?n = 0"
    proof (rule ccontr)
      assume "?n \<noteq> 0"
      then have "0 < ?n" by simp
      then have "fst (?ps ! 0) < ?i" by (rule below)
      moreover have "?ps ! 0 \<in> set ?ps" using ne by simp
      ultimately show False using all by fastforce
    qed
    moreover have "fst (?ps ! 0) \<noteq> ?i"
    proof -
      have "?ps ! 0 \<in> set ?ps" using ne by simp
      then have "?i < fst (?ps ! 0)" using all by blast
      then show ?thesis by simp
    qed
    ultimately show ?thesis using res by simp
  qed
  have some: "\<exists>p\<in>set ?ps.
               lower_bound_pair T s = Inr (Some (base s + ucast (fst p), ucast (snd p))) \<and>
               fst p \<le> ?i \<and> (\<forall>q\<in>set ?ps. fst q \<le> ?i \<longrightarrow> fst q \<le> fst p)"
    if ex: "\<exists>p\<in>set ?ps. fst p \<le> ?i"
  proof (cases "?n < length ?ps \<and> fst (?ps ! ?n) = ?i")
    case True
    then have "lower_bound_pair T s = Inr (Some (entry_at s ?n))" using res by simp
    moreover have "?ps ! ?n \<in> set ?ps" using True by simp
    ultimately show ?thesis using True by (auto simp: entry_at_def intro!: bexI [of _ "?ps ! ?n"])
  next
    case False
    have pos: "0 < ?n"
    proof (rule ccontr)
      assume "\<not> 0 < ?n"
      then have z: "?n = 0" by simp
      from ex obtain p where p: "p \<in> set ?ps" "fst p \<le> ?i" by blast
      then obtain k where k: "k < length ?ps" "?ps ! k = p" by (auto simp: in_set_conv_nth)
      have "?i \<le> fst (?ps ! 0)" using above [of 0] z ne by simp
      moreover have "fst (?ps ! 0) \<le> fst (?ps ! k)" using mono [of 0 k] k(1) by simp
      ultimately have "fst (?ps ! 0) = ?i" using p(2) k(2) by simp
      then show False using False z ne by simp
    qed
    then have r: "lower_bound_pair T s = Inr (Some (entry_at s (?n - 1)))"
      using res False by simp
    have in_set: "?ps ! (?n - 1) \<in> set ?ps" using pos le by simp
    have b: "fst (?ps ! (?n - 1)) < ?i" using below [of "?n - 1"] pos by simp
    have mx: "fst q \<le> fst (?ps ! (?n - 1))" if q: "q \<in> set ?ps" "fst q \<le> ?i" for q
    proof -
      from q(1) obtain k where k: "k < length ?ps" "?ps ! k = q" by (auto simp: in_set_conv_nth)
      have "k < ?n"
      proof (rule ccontr)
        assume "\<not> k < ?n"
        then have nk: "?n \<le> k" by simp
        then have nlt: "?n < length ?ps" using k(1) by simp
        have "?i \<le> fst (?ps ! ?n)" using above [of ?n] nlt by simp
        moreover have "fst (?ps ! ?n) \<le> fst (?ps ! k)" using mono [of ?n k] nk k(1) by simp
        ultimately have "fst (?ps ! ?n) = ?i" using q(2) k(2) by simp
        then show False using False nlt by simp
      qed
      then have "k \<le> ?n - 1" by simp
      then have "fst (?ps ! k) \<le> fst (?ps ! (?n - 1))" using mono [of k "?n - 1"] pos le by simp
      then show ?thesis using k(2) by simp
    qed
    show ?thesis
      using r in_set b mx by (auto simp: entry_at_def intro!: bexI [of _ "?ps ! (?n - 1)"])
  qed
  show ?thesis using none some by blast
qed

section \<open>The entries stay sorted\<close>

lemma sorted_le_last:
  assumes "sorted (map fst ps)" and "p \<in> set ps"
  shows "fst p \<le> fst (last ps)"
proof -
  from assms(2) obtain k where k: "k < length ps" "ps ! k = p"
    by (auto simp: in_set_conv_nth)
  then have ne: "ps \<noteq> []" by auto
  have "fst (ps ! k) \<le> fst (ps ! (length ps - 1))"
    using assms(1) k(1) by (simp add: sorted_iff_nth_mono)
  then show ?thesis using k(2) ne by (simp add: last_conv_nth)
qed

lemma maybe_track_sorted:
  assumes "entries_sorted s" and "maybe_track o' pos data_size s = Inr s'"
  shows "entries_sorted s'"
proof (cases "positions s \<noteq> [] \<and> relative s o' < fst (last (positions s))")
  case True
  then show ?thesis using assms by (auto simp: maybe_track_def split: if_splits)
next
  case False
  have app: "sorted (map fst (positions s @ [(relative s o', ucast pos)]))"
  proof -
    have "fst p \<le> relative s o'" if "p \<in> set (positions s)" for p
    proof -
      have "fst p \<le> fst (last (positions s))"
        using assms(1) that by (simp add: entries_sorted_def sorted_le_last)
      moreover have "fst (last (positions s)) \<le> relative s o'"
        using False that by auto
      ultimately show ?thesis by simp
    qed
    then show ?thesis using assms(1) by (auto simp: entries_sorted_def sorted_append)
  qed
  show ?thesis
    using assms False app
    by (auto simp: maybe_track_def Let_def entries_sorted_def split: if_splits)
qed

lemma flush_io_sorted:
  assumes "entries_sorted s"
  shows "entries_sorted (snd (flush_io fault s))"
proof -
  have "sorted (map fst (take n (positions s)))" for n
    using assms by (simp add: entries_sorted_def take_map [symmetric] sorted_wrt_take)
  then show ?thesis
    using assms
    by (auto simp: flush_io_def issue_def Let_def entries_sorted_def from_buf_to_buf
             from_buf_take_to_buf split: option.split flush_fault.split)
qed

lemma flush_sorted: "entries_sorted s \<Longrightarrow> entries_sorted (snd (flush fault s))"
proof -
  assume a: "entries_sorted s"
  then have "entries_sorted (s\<lparr>needs_persistence := False\<rparr>)" by (simp add: entries_sorted_def)
  then show ?thesis using a by (simp add: flush_def flush_io_sorted)
qed

lemma truncate_positions_sorted:
  "entries_sorted s \<Longrightarrow> entries_sorted (truncate_positions o' s)"
  by (simp add: truncate_positions_def Let_def entries_sorted_def take_map [symmetric] sorted_wrt_take)

lemma materialize_index_sorted:
  "entries_sorted s \<Longrightarrow> entries_sorted (snd (materialize_index fault s))"
  by (simp add: materialize_index_def issue_def Let_def entries_sorted_def
           split: option.split load_fault.split)

lemma apply_operation_sorted:
  "entries_sorted s \<Longrightarrow> apply_operation x s = Inr s' \<Longrightarrow> entries_sorted s'"
proof (cases x)
  case (Track o' pos data_size)
  assume "entries_sorted s" "apply_operation x s = Inr s'"
  then show ?thesis using Track by (auto intro: maybe_track_sorted)
next
  case (Lookup o')
  assume "entries_sorted s" "apply_operation x s = Inr s'"
  then show ?thesis using Lookup by (auto split: sum.splits)
next
  case (Truncate o' fault)
  assume "entries_sorted s" "apply_operation x s = Inr s'"
  moreover have "entries_sorted (snd (flush fault (truncate_positions o' s)))"
    if "entries_sorted s"
    using that by (intro flush_sorted truncate_positions_sorted)
  ultimately show ?thesis using Truncate
    by (auto simp: truncate_def split: sum.splits if_splits)
next
  case (Load fault)
  assume "entries_sorted s" "apply_operation x s = Inr s'"
  then show ?thesis using Load by (auto simp: materialize_index_sorted)
next
  case (Flush fault)
  assume "entries_sorted s" "apply_operation x s = Inr s'"
  then show ?thesis using Flush by (auto simp: flush_sorted)
qed

lemma run_sorted: "entries_sorted s \<Longrightarrow> run xs s = Inr s' \<Longrightarrow> entries_sorted s'"
proof (induction xs arbitrary: s)
  case Nil
  then show ?case by simp
next
  case (Cons x xs)
  then show ?case by (auto split: sum.splits dest: apply_operation_sorted)
qed

section \<open>The sampler\<close>

text \<open>
  Claim C3. A call of \<^verbatim>\<open>maybe_track\<close> that passes the assertion and is not dropped as an
  earlier offset sets \<^verbatim>\<open>_last_seen_offset\<close> to the tracked offset and adds the payload
  size to the accumulator (an addition of \<^verbatim>\<open>size_t\<close>). Exactly when the accumulator then
  reaches or exceeds the step, the entry of the relative offset and the byte position
  (both as \<^verbatim>\<open>uint32_t\<close>) is appended, the accumulator is reset to 0 and the dirty flag is
  set; when it stays below the step, the entries and the dirty flag are as before.
\<close>

theorem track_samples_at_step:
  "base s \<le>s o' \<Longrightarrow> \<not> (positions s \<noteq> [] \<and> relative s o' < fst (last (positions s))) \<Longrightarrow>
   maybe_track o' pos data_size s =
     Inr (if step s \<le> acc s + data_size
          then s\<lparr>last_seen_offset := o', acc := 0,
                 positions := positions s @ [(ucast (o' - base s), ucast pos)],
                 needs_persistence := True\<rparr>
          else s\<lparr>last_seen_offset := o', acc := acc s + data_size\<rparr>)"
  by (auto simp: maybe_track_def relative_def Let_def)

theorem track_samples_at_step_witness:
  "base (make_index [] 100 10 100) \<le>s 103 \<and>
   \<not> (positions (make_index [] 100 10 100) \<noteq> [] \<and>
      relative (make_index [] 100 10 100) 103 < fst (last (positions (make_index [] 100 10 100)))) \<and>
   maybe_track 103 4096 10 (make_index [] 100 10 100) =
     Inr ((make_index [] 100 10 100)
            \<lparr>last_seen_offset := 103, positions := [(3, 4096)], needs_persistence := True\<rparr>)"
proof -
  let ?s = "make_index [] 100 10 100"
  have h1: "base ?s \<le>s 103" by (simp add: make_index_def word_sle_eq)
  have h2: "\<not> (positions ?s \<noteq> [] \<and> relative ?s 103 < fst (last (positions ?s)))"
    by (simp add: make_index_def)
  show ?thesis using h1 h2 track_samples_at_step [OF h1 h2, of 4096 10]
    by (simp add: make_index_def)
qed

text \<open>
  Claim C4. When the entry list is not empty and the relative offset of the tracked
  offset is strictly less than the relative offset of the last entry, \<^verbatim>\<open>maybe_track\<close>
  returns with the whole state as it was: entries, accumulator, last seen offset and
  dirty flag.
\<close>

theorem earlier_offset_ignored:
  "base s \<le>s o' \<Longrightarrow> positions s \<noteq> [] \<Longrightarrow> relative s o' < fst (last (positions s)) \<Longrightarrow>
   maybe_track o' pos data_size s = Inr s"
  by (simp add: maybe_track_def)

theorem earlier_offset_ignored_witness:
  "base ((make_index [] 100 10 100)\<lparr>positions := [(7, 64)]\<rparr>) \<le>s 103 \<and>
   positions ((make_index [] 100 10 100)\<lparr>positions := [(7, 64)]\<rparr>) \<noteq> [] \<and>
   relative ((make_index [] 100 10 100)\<lparr>positions := [(7, 64)]\<rparr>) 103
     < fst (last (positions ((make_index [] 100 10 100)\<lparr>positions := [(7, 64)]\<rparr>))) \<and>
   maybe_track 103 4096 50 ((make_index [] 100 10 100)\<lparr>positions := [(7, 64)]\<rparr>) =
     Inr ((make_index [] 100 10 100)\<lparr>positions := [(7, 64)]\<rparr>)"
proof -
  let ?s = "(make_index [] 100 10 100)\<lparr>positions := [(7, 64)]\<rparr>"
  have h1: "base ?s \<le>s 103" by (simp add: make_index_def word_sle_eq)
  have h2: "positions ?s \<noteq> []" by (simp add: make_index_def)
  have h3: "relative ?s 103 < fst (last (positions ?s))"
    by (simp add: make_index_def relative_def)
  show ?thesis using h1 h2 h3 earlier_offset_ignored [OF h1 h2 h3, of 4096 50]
    by simp
qed

section \<open>The assertions\<close>

text \<open>
  Claim C9. \<^verbatim>\<open>maybe_track\<close>, \<^verbatim>\<open>lower_bound_pair\<close> and \<^verbatim>\<open>truncate\<close> abort on their assertion,
  with no state and no result, exactly when the logical offset is strictly below the
  base offset; with an offset at or above the base offset none of them aborts.
\<close>

theorem below_base_aborts:
  "(maybe_track o' pos data_size s = Inl (cannot_track_below_base o' (base s))) = (o' <s base s) \<and>
   isl (maybe_track o' pos data_size s) = (o' <s base s) \<and>
   (lower_bound_pair o' s = Inl (lower_bound_below_base o' (base s))) = (o' <s base s) \<and>
   isl (lower_bound_pair o' s) = (o' <s base s) \<and>
   (truncate fault o' s = Inl (truncate_below_base o' (base s))) = (o' <s base s) \<and>
   isl (truncate fault o' s) = (o' <s base s)"
  by (auto simp: maybe_track_def lower_bound_pair_def truncate_def Let_def signed.not_le)

section \<open>The persister\<close>

text \<open>
  Claim C6. With the dirty flag false, \<^verbatim>\<open>flush\<close> issues no file operation and changes
  nothing. A \<^verbatim>\<open>flush\<close> that follows a \<^verbatim>\<open>flush\<close> with nothing in between issues no file
  operation and changes nothing, whatever the first one met; the first one has issued
  file operations exactly when the flag was set.
\<close>

theorem flush_idempotent:
  "(\<not> needs_persistence s \<longrightarrow> flush fault s = (ready (), s)) \<and>
   flush fault2 (snd (flush fault1 s)) = (ready (), snd (flush fault1 s)) \<and>
   (out_ops (snd (flush fault1 s)) = out_ops s) = (\<not> needs_persistence s)"
  by (simp add: flush_issues) (simp add: flush_def flush_io_frame)

theorem flush_idempotent_witness:
  "\<not> needs_persistence (make_index [] 100 10 100) \<and>
   flush None (make_index [] 100 10 100) = (ready (), make_index [] 100 10 100) \<and>
   out_ops (snd (flush None (snd (flush None
     ((make_index [] 100 10 100)\<lparr>positions := [(7, 64)], needs_persistence := True\<rparr>))))) =
     [file_truncate, file_write, file_flush, file_close]"
proof -
  let ?c = "make_index [] 100 10 100"
  let ?d = "(make_index [] 100 10 100)\<lparr>positions := [(7, 64)], needs_persistence := True\<rparr>"
  have h: "\<not> needs_persistence ?c" by (simp add: make_index_def)
  have io: "out_ops (snd (flush None ?d)) = [file_truncate, file_write, file_flush, file_close]"
    by (simp add: flush_def flush_io_def issue_def make_index_def)
  show ?thesis
    using h io flush_idempotent [of ?c None None None] flush_idempotent [of ?d None None None]
    by simp
qed

text \<open>
  Claim C7. With the dirty flag set, \<^verbatim>\<open>flush\<close> is its chain of file operations run in the
  state whose flag is already cleared. Whatever step fails, the flag is cleared and the
  entries are as before in the state that results, and the future is ready exactly when
  no step has failed: a failure is the result of \<^verbatim>\<open>flush\<close>.
\<close>

theorem flush_clears_flag_first:
  "needs_persistence s \<Longrightarrow>
   flush fault s = flush_io fault (s\<lparr>needs_persistence := False\<rparr>) \<and>
   \<not> needs_persistence (snd (flush fault s)) \<and>
   positions (snd (flush fault s)) = positions s \<and>
   (fst (flush fault s) = ready ()) = (fault = None)"
  by (simp add: flush_def flush_io_frame flush_io_result)

theorem flush_clears_flag_first_witness:
  "needs_persistence ((make_index [] 100 10 100)\<lparr>positions := [(7, 64)], needs_persistence := True\<rparr>) \<and>
   fst (flush (Some (write_fails 3))
     ((make_index [] 100 10 100)\<lparr>positions := [(7, 64)], needs_persistence := True\<rparr>)) \<noteq> ready () \<and>
   \<not> needs_persistence (snd (flush (Some (write_fails 3))
     ((make_index [] 100 10 100)\<lparr>positions := [(7, 64)], needs_persistence := True\<rparr>))) \<and>
   positions (snd (flush (Some (write_fails 3))
     ((make_index [] 100 10 100)\<lparr>positions := [(7, 64)], needs_persistence := True\<rparr>))) = [(7, 64)]"
proof -
  let ?d = "(make_index [] 100 10 100)\<lparr>positions := [(7, 64)], needs_persistence := True\<rparr>"
  have h: "needs_persistence ?d" by simp
  have p: "positions ?d = [(7, 64)]" by simp
  note t = flush_clears_flag_first [OF h, of "Some (write_fails 3)", THEN conjunct2]
  show ?thesis using h p t by simp
qed

section \<open>The locator\<close>

text \<open>
  Claim C1, as stated, fails: the relative offset of the target is computed in 32 bits.
  With base offset 100 and the one entry of relative offset 5 (logical offset 105), the
  lookup of the offset \<open>100 + 2\<^sup>3\<^sup>2\<close> searches for the relative offset 0 and returns
  nothing, though the entry is below the target.
\<close>

theorem lookup_wraps_counterexample:
  "base ((make_index [] 100 10 100)\<lparr>positions := [(5, 0)]\<rparr>) \<le>s 4294967396 \<and>
   sint (base ((make_index [] 100 10 100)\<lparr>positions := [(5, 0)]\<rparr>)) + uint (fst (5 :: u32, 0 :: u32))
     \<le> sint (4294967396 :: offset) \<and>
   lower_bound_pair 4294967396 ((make_index [] 100 10 100)\<lparr>positions := [(5, 0)]\<rparr>) = Inr None"
  by (simp add: make_index_def word_sle_eq lower_bound_pair_def relative_def Let_def
        std_lower_bound_def lower_bound_loop.simps)

text \<open>
  Claim C1, amended. On an index whose entries are sorted by relative offset, for every
  target \<open>T\<close> with \<open>base_offset \<le> T\<close> and \<open>T - base_offset < 2\<^sup>3\<^sup>2\<close>: when every entry is above
  \<open>T\<close>, and so also when there is no entry, \<^verbatim>\<open>lower_bound_pair\<close> returns nothing; when some
  entry is at or below \<open>T\<close>, it returns an entry of the list whose offset is the greatest
  at or below \<open>T\<close>, as the logical offset (base offset plus relative offset, without
  overflow) and the position.
\<close>

theorem lookup_greatest_at_or_below:
  assumes "sorted (map fst (positions s))" and "base s \<le>s T"
    and "sint T - sint (base s) < 2 ^ 32"
  shows "((\<forall>p\<in>set (positions s). sint T < sint (base s) + uint (fst p)) \<longrightarrow>
            lower_bound_pair T s = Inr None) \<and>
         ((\<exists>p\<in>set (positions s). sint (base s) + uint (fst p) \<le> sint T) \<longrightarrow>
            (\<exists>p\<in>set (positions s).
               lower_bound_pair T s = Inr (Some (base s + ucast (fst p), ucast (snd p))) \<and>
               sint (base s + ucast (fst p)) = sint (base s) + uint (fst p) \<and>
               sint (base s) + uint (fst p) \<le> sint T \<and>
               (\<forall>q\<in>set (positions s).
                  sint (base s) + uint (fst q) \<le> sint T \<longrightarrow> fst q \<le> fst p)))"
proof -
  have rel: "uint (relative s T) = sint T - sint (base s)"
    using assms(2,3) by (rule relative_uint)
  have le_iff: "fst p \<le> relative s T \<longleftrightarrow> sint (base s) + uint (fst p) \<le> sint T" for p :: "u32 \<times> u32"
    using rel by (auto simp: word_le_def)
  have lt_iff: "relative s T < fst p \<longleftrightarrow> sint T < sint (base s) + uint (fst p)" for p :: "u32 \<times> u32"
    using rel by (auto simp: word_less_def)
  have logical: "sint (base s + ucast (fst p)) = sint (base s) + uint (fst p)"
    if "sint (base s) + uint (fst p) \<le> sint T" for p :: "u32 \<times> u32"
  proof -
    have "sint T < 2 ^ 63" using sint_lt [of T] by simp
    with that have "sint (base s) + uint (fst p) < 2 ^ 63" by linarith
    then show ?thesis by (rule sint_add_ucast)
  qed
  note r = lower_bound_pair_relative [OF assms(1,2)]
  show ?thesis
    using r logical unfolding le_iff lt_iff by blast
qed

theorem lookup_greatest_at_or_below_witness:
  "sorted (map fst (positions ((make_index [] 100 10 100)\<lparr>positions := [(5, 0), (9, 64)]\<rparr>))) \<and>
   base ((make_index [] 100 10 100)\<lparr>positions := [(5, 0), (9, 64)]\<rparr>) \<le>s 107 \<and>
   sint (107 :: offset) - sint (base ((make_index [] 100 10 100)\<lparr>positions := [(5, 0), (9, 64)]\<rparr>))
     < 2 ^ 32 \<and>
   lower_bound_pair 107 ((make_index [] 100 10 100)\<lparr>positions := [(5, 0), (9, 64)]\<rparr>) =
     Inr (Some (105, 0)) \<and>
   lower_bound_pair 103 ((make_index [] 100 10 100)\<lparr>positions := [(5, 0), (9, 64)]\<rparr>) =
     Inr None"
proof -
  let ?s = "(make_index [] 100 10 100)\<lparr>positions := [(5, 0), (9, 64)]\<rparr>"
  have h1: "sorted (map fst (positions ?s))" by simp
  have h2: "base ?s \<le>s 107" by (simp add: make_index_def word_sle_eq)
  have h3: "sint (107 :: offset) - sint (base ?s) < 2 ^ 32" by (simp add: make_index_def)
  have g2: "base ?s \<le>s 103" by (simp add: make_index_def word_sle_eq)
  have g3: "sint (103 :: offset) - sint (base ?s) < 2 ^ 32" by (simp add: make_index_def)
  have b: "base ?s = 100" by (simp add: make_index_def)
  have p: "positions ?s = [(5, 0), (9, 64)]" by simp
  have found: "lower_bound_pair 107 ?s = Inr (Some (105, 0))"
    using lookup_greatest_at_or_below [OF h1 h2 h3, THEN conjunct2] unfolding b p by simp
  have missed: "lower_bound_pair 103 ?s = Inr None"
    using lookup_greatest_at_or_below [OF h1 g2 g3, THEN conjunct1] unfolding b p by simp
  show ?thesis using h1 h2 h3 found missed by simp
qed

section \<open>The mutator\<close>

text \<open>
  Claim C5, as stated, fails: the relative offset of the target is computed in 32 bits.
  With base offset 100 and the one entry of relative offset 5, \<^verbatim>\<open>truncate\<close> of the offset
  \<open>100 + 2\<^sup>3\<^sup>2 + 1\<close> removes the entry, though 5 is below the difference \<open>2\<^sup>3\<^sup>2 + 1\<close>.
\<close>

theorem truncate_wraps_counterexample:
  "base ((make_index [] 100 10 100)\<lparr>positions := [(5, 0)]\<rparr>) \<le>s 4294967397 \<and>
   sorted (map fst (positions ((make_index [] 100 10 100)\<lparr>positions := [(5, 0)]\<rparr>))) \<and>
   uint (fst (5 :: u32, 0 :: u32))
     < sint (4294967397 :: offset) - sint (base ((make_index [] 100 10 100)\<lparr>positions := [(5, 0)]\<rparr>)) \<and>
   truncate None 4294967397 ((make_index [] 100 10 100)\<lparr>positions := [(5, 0)]\<rparr>) =
     Inr (ready (),
          \<lparr>out_data = [], out_ops = [file_truncate, file_write, file_flush, file_close],
           base = 100, step = 10, acc = 0, needs_persistence = False,
           last_seen_offset = 4294967397, positions = []\<rparr>)"
  by (simp add: make_index_def word_sle_eq truncate_def truncate_positions_def relative_def
        Let_def std_lower_bound_def lower_bound_loop.simps flush_def flush_io_def issue_def)

text \<open>
  Claim C5, amended. For \<^verbatim>\<open>truncate\<close> of an offset at or above the base offset, on an index
  whose entries are sorted by relative offset: \<^verbatim>\<open>truncate\<close> is \<^verbatim>\<open>flush\<close> run after its own
  statements. These set \<^verbatim>\<open>_last_seen_offset\<close> to the offset; they remove exactly the
  entries whose relative offset is at or above the relative offset of the target, which
  is the difference to the base offset modulo \<open>2\<^sup>3\<^sup>2\<close>, keeping the prefix before the first
  such entry; they set the dirty flag when an entry was removed and leave it as it was
  otherwise. No entry that remains is at or above the target. The \<^verbatim>\<open>flush\<close> that follows
  keeps the entries and the last seen offset, and clears the flag.
\<close>

theorem truncate_removes_suffix:
  assumes "base s \<le>s o'" and "sorted (map fst (positions s))"
  shows "truncate fault o' s = Inr (flush fault (truncate_positions o' s)) \<and>
         uint (relative s o') = (sint o' - sint (base s)) mod 2 ^ 32 \<and>
         last_seen_offset (truncate_positions o' s) = o' \<and>
         positions (truncate_positions o' s) = filter (\<lambda>p. fst p < relative s o') (positions s) \<and>
         positions (truncate_positions o' s) = takeWhile (\<lambda>p. fst p < relative s o') (positions s) \<and>
         needs_persistence (truncate_positions o' s) =
           (if length (positions (truncate_positions o' s)) < length (positions s) then True
            else needs_persistence s) \<and>
         (\<forall>p\<in>set (positions (truncate_positions o' s)). fst p < relative s o') \<and>
         last_seen_offset (snd (flush fault (truncate_positions o' s))) = o' \<and>
         positions (snd (flush fault (truncate_positions o' s))) =
           positions (truncate_positions o' s) \<and>
         \<not> needs_persistence (snd (flush fault (truncate_positions o' s)))"
proof -
  let ?i = "relative s o'" and ?xs = "positions s"
  let ?it = "std_lower_bound ?xs ?i"
  have le: "?it \<le> length ?xs" by (rule std_lower_bound_le)
  have tk: "take ?it ?xs = takeWhile (\<lambda>p. fst p < ?i) ?xs"
    using assms(2) by (rule take_std_lower_bound)
  have ps: "positions (truncate_positions o' s) = take ?it ?xs"
    by (simp add: truncate_positions_def Let_def)
  have len: "length (positions (truncate_positions o' s)) = ?it"
    using le by (simp add: ps)
  have np: "needs_persistence (truncate_positions o' s) =
              (if ?it \<noteq> length ?xs then True else needs_persistence s)"
    by (simp add: truncate_positions_def Let_def)
  have ls: "last_seen_offset (truncate_positions o' s) = o'"
    by (simp add: truncate_positions_def Let_def)
  have tw: "positions (truncate_positions o' s) = takeWhile (\<lambda>p. fst p < ?i) ?xs"
    by (simp add: ps tk)
  have all: "\<forall>p\<in>set (positions (truncate_positions o' s)). fst p < ?i"
    unfolding tw by (auto dest: set_takeWhileD)
  have flag: "needs_persistence (truncate_positions o' s) =
           (if length (positions (truncate_positions o' s)) < length (positions s) then True
            else needs_persistence s)"
    using le by (auto simp: np len)
  have md: "uint (relative s o') = (sint o' - sint (base s)) mod 2 ^ 32"
    by (rule relative_uint_mod)
  show ?thesis
    using assms(1) ls tw all flag md
    by (simp add: truncate_def flush_frame filter_below_sorted [OF assms(2)])
qed

theorem truncate_removes_suffix_witness:
  "base ((make_index [] 100 10 100)\<lparr>positions := [(7, 64), (20, 128), (31, 256)]\<rparr>) \<le>s 120 \<and>
   sorted (map fst (positions
     ((make_index [] 100 10 100)\<lparr>positions := [(7, 64), (20, 128), (31, 256)]\<rparr>))) \<and>
   positions (truncate_positions 120
     ((make_index [] 100 10 100)\<lparr>positions := [(7, 64), (20, 128), (31, 256)]\<rparr>)) = [(7, 64)] \<and>
   needs_persistence (truncate_positions 120
     ((make_index [] 100 10 100)\<lparr>positions := [(7, 64), (20, 128), (31, 256)]\<rparr>))"
proof -
  let ?s = "(make_index [] 100 10 100)\<lparr>positions := [(7, 64), (20, 128), (31, 256)]\<rparr>"
  have h1: "base ?s \<le>s 120" by (simp add: make_index_def word_sle_eq)
  have h2: "sorted (map fst (positions ?s))" by (simp add: make_index_def)
  have r: "relative ?s 120 = 20" by (simp add: make_index_def relative_def)
  have p: "positions ?s = [(7, 64), (20, 128), (31, 256)]" by simp
  note t = truncate_removes_suffix [OF h1 h2, of None, THEN conjunct2, THEN conjunct2]
  show ?thesis using h1 h2 t unfolding r p by simp
qed

text \<open>
  Claim C10, as stated, fails in two ways. First, \<^verbatim>\<open>truncate\<close> always ends with \<^verbatim>\<open>flush\<close>:
  on a dirty index with base offset 100 and the one entry of relative offset 7,
  \<^verbatim>\<open>truncate\<close> of the offset 120 keeps the entry, but clears the dirty flag and rewrites
  the file, so that more than \<^verbatim>\<open>_last_seen_offset\<close> has changed. Second, the relative offset
  of the target is computed in 32 bits: with base offset 0 and entries of relative
  offsets 7 and 9 on a clean index, the target \<open>2\<^sup>3\<^sup>2 + 8\<close> is above both, yet \<^verbatim>\<open>truncate\<close>
  removes the entry at 9 and rewrites the file.
\<close>

theorem truncate_beyond_counterexample:
  "fst (7 :: u32, 64 :: u32)
     < relative ((make_index [] 100 10 100)\<lparr>positions := [(7, 64)], needs_persistence := True\<rparr>) 120 \<and>
   truncate None 120
       ((make_index [] 100 10 100)\<lparr>positions := [(7, 64)], needs_persistence := True\<rparr>) =
     Inr (ready (),
          \<lparr>out_data = [7, 0, 0, 0, 64, 0, 0, 0],
           out_ops = [file_truncate, file_write, file_flush, file_close],
           base = 100, step = 10, acc = 0, needs_persistence = False,
           last_seen_offset = 120, positions = [(7, 64)]\<rparr>) \<and>
   base ((make_index [] 0 10 0)\<lparr>positions := [(7, 64), (9, 128)]\<rparr>) \<le>s 4294967304 \<and>
   uint (fst (7 :: u32, 64 :: u32))
     < sint (4294967304 :: offset)
       - sint (base ((make_index [] 0 10 0)\<lparr>positions := [(7, 64), (9, 128)]\<rparr>)) \<and>
   uint (fst (9 :: u32, 128 :: u32))
     < sint (4294967304 :: offset)
       - sint (base ((make_index [] 0 10 0)\<lparr>positions := [(7, 64), (9, 128)]\<rparr>)) \<and>
   \<not> needs_persistence ((make_index [] 0 10 0)\<lparr>positions := [(7, 64), (9, 128)]\<rparr>) \<and>
   truncate None 4294967304 ((make_index [] 0 10 0)\<lparr>positions := [(7, 64), (9, 128)]\<rparr>) =
     Inr (ready (),
          \<lparr>out_data = [7, 0, 0, 0, 64, 0, 0, 0],
           out_ops = [file_truncate, file_write, file_flush, file_close],
           base = 0, step = 10, acc = 0, needs_persistence = False,
           last_seen_offset = 4294967304, positions = [(7, 64)]\<rparr>)"
  by (simp add: make_index_def word_sle_eq truncate_def truncate_positions_def relative_def
        Let_def std_lower_bound_def lower_bound_loop.simps flush_def flush_io_def issue_def
        u32_to_bytes_def drop_bit_eq_div)

text \<open>
  Claim C10, amended. For \<^verbatim>\<open>truncate\<close> of an offset at or above the base offset whose
  relative offset, the difference to the base offset modulo \<open>2\<^sup>3\<^sup>2\<close>, is strictly greater
  than that of every entry: the statements of \<^verbatim>\<open>truncate\<close> change \<^verbatim>\<open>_last_seen_offset\<close> only,
  so the entries and the dirty flag reach \<^verbatim>\<open>flush\<close> as they were. When the index was not
  dirty, the whole call changes \<^verbatim>\<open>_last_seen_offset\<close> only: the file and the list of the
  operations issued on it are as before. When it was dirty, the \<^verbatim>\<open>flush\<close> clears the flag
  and issues file operations.
\<close>

theorem truncate_beyond_entries:
  assumes "base s \<le>s o'" and "\<forall>p\<in>set (positions s). fst p < relative s o'"
  shows "uint (relative s o') = (sint o' - sint (base s)) mod 2 ^ 32 \<and>
         truncate_positions o' s = s\<lparr>last_seen_offset := o'\<rparr> \<and>
         truncate fault o' s = Inr (flush fault (s\<lparr>last_seen_offset := o'\<rparr>)) \<and>
         (\<not> needs_persistence s \<longrightarrow>
            truncate fault o' s = Inr (ready (), s\<lparr>last_seen_offset := o'\<rparr>)) \<and>
         (needs_persistence s \<longrightarrow>
            truncate fault o' s =
              Inr (flush_io fault (s\<lparr>last_seen_offset := o', needs_persistence := False\<rparr>)) \<and>
            \<not> needs_persistence (snd (flush fault (s\<lparr>last_seen_offset := o'\<rparr>))) \<and>
            out_ops (snd (flush fault (s\<lparr>last_seen_offset := o'\<rparr>))) \<noteq> out_ops s)"
proof -
  have "std_lower_bound (positions s) (relative s o') = length (positions s)"
    using assms(2) by (rule std_lower_bound_all_less)
  then have tp: "truncate_positions o' s = s\<lparr>last_seen_offset := o'\<rparr>"
    by (simp add: truncate_positions_def Let_def)
  have md: "uint (relative s o') = (sint o' - sint (base s)) mod 2 ^ 32"
    by (rule relative_uint_mod)
  have io: "out_ops (snd (flush fault (s\<lparr>last_seen_offset := o'\<rparr>))) \<noteq> out_ops s"
    if "needs_persistence s"
    using that flush_issues [of fault "s\<lparr>last_seen_offset := o'\<rparr>"] by simp
  show ?thesis using assms(1) tp md io by (simp add: truncate_def flush_def flush_frame flush_io_frame)
qed

theorem truncate_beyond_entries_witness:
  "base ((make_index [] 100 10 100)\<lparr>positions := [(7, 64)]\<rparr>) \<le>s 120 \<and>
   fst (7, 64) < relative ((make_index [] 100 10 100)\<lparr>positions := [(7, 64)]\<rparr>) 120 \<and>
   \<not> needs_persistence ((make_index [] 100 10 100)\<lparr>positions := [(7, 64)]\<rparr>) \<and>
   truncate None 120 ((make_index [] 100 10 100)\<lparr>positions := [(7, 64)]\<rparr>) =
     Inr (ready (), (make_index [] 100 10 100)\<lparr>positions := [(7, 64)], last_seen_offset := 120\<rparr>) \<and>
   needs_persistence
     ((make_index [] 100 10 100)\<lparr>positions := [(7, 64)], needs_persistence := True\<rparr>) \<and>
   truncate (Some truncate_fails) 120
       ((make_index [] 100 10 100)\<lparr>positions := [(7, 64)], needs_persistence := True\<rparr>) =
     Inr (failed file_truncate,
          (make_index [] 100 10 100)
            \<lparr>positions := [(7, 64)], needs_persistence := False, last_seen_offset := 120,
             out_ops := [file_truncate]\<rparr>)"
proof -
  let ?s = "(make_index [] 100 10 100)\<lparr>positions := [(7, 64)]\<rparr>"
  let ?d = "(make_index [] 100 10 100)\<lparr>positions := [(7, 64)], needs_persistence := True\<rparr>"
  have h1: "base ?s \<le>s 120" by (simp add: make_index_def word_sle_eq)
  have h2: "\<forall>p\<in>set (positions ?s). fst p < relative ?s 120"
    by (simp add: make_index_def relative_def)
  have h3: "\<not> needs_persistence ?s" by (simp add: make_index_def)
  have g1: "base ?d \<le>s 120" by (simp add: make_index_def word_sle_eq)
  have g2: "\<forall>p\<in>set (positions ?d). fst p < relative ?d 120"
    by (simp add: make_index_def relative_def)
  have g3: "needs_persistence ?d" by simp
  note t = truncate_beyond_entries [OF h1 h2, of None, THEN conjunct2, THEN conjunct2,
    THEN conjunct2, THEN conjunct1, THEN mp, OF h3]
  note u = truncate_beyond_entries [OF g1 g2, of "Some truncate_fails", THEN conjunct2,
    THEN conjunct2, THEN conjunct2, THEN conjunct2, THEN mp, OF g3, THEN conjunct1]
  have f: "flush_io (Some truncate_fails) (?d\<lparr>last_seen_offset := 120, needs_persistence := False\<rparr>) =
        (failed file_truncate,
          (make_index [] 100 10 100)
            \<lparr>positions := [(7, 64)], needs_persistence := False, last_seen_offset := 120,
             out_ops := [file_truncate]\<rparr>)"
    by (simp add: flush_io_def issue_def make_index_def)
  show ?thesis using h1 h2 h3 g3 t u f by (simp add: make_index_def)
qed

section \<open>The persisted format\<close>

text \<open>
  Claim C8, as stated, fails in its last part: on an empty file \<^verbatim>\<open>materialize_index\<close>
  returns false without assigning the entries, so they stay as they were, which need not
  be empty. A fresh index that has tracked one record of 10 bytes with step 10 holds one
  entry and an empty file; \<^verbatim>\<open>materialize_index\<close> then returns false and the entry is
  still there.
\<close>

theorem load_keeps_entries_counterexample:
  "maybe_track 103 4096 10 (make_index [] 100 10 100) =
     Inr \<lparr>out_data = [], out_ops = [], base = 100, step = 10, acc = 0,
          needs_persistence = True, last_seen_offset = 103, positions = [(3, 4096)]\<rparr> \<and>
   materialize_index None
       \<lparr>out_data = [], out_ops = [], base = 100, step = 10, acc = 0,
        needs_persistence = True, last_seen_offset = 103, positions = [(3, 4096)]\<rparr> =
     (ready False,
      \<lparr>out_data = [], out_ops = [file_size, file_read], base = 100, step = 10, acc = 0,
       needs_persistence = True, last_seen_offset = 103, positions = [(3, 4096)]\<rparr>) \<and>
   [(3 :: u32, 4096 :: u32)] \<noteq> []"
  by (simp add: make_index_def maybe_track_def relative_def word_sle_eq Let_def
        materialize_index_def issue_def)

text \<open>
  Claim C8, amended. Decoding the encoding of an entry list gives the list back, in order;
  the encoding has 8 bytes for each entry, so that of the empty list is empty. A \<^verbatim>\<open>flush\<close>
  of a dirty index that meets no failure leaves the encoding of the entries in the file.
  On a file that is not empty \<^verbatim>\<open>materialize_index\<close> returns true and replaces the entries,
  whatever they were, by the decoding of the file: by the list \<open>ps\<close> when the file holds
  the encoding of \<open>ps\<close>. On an empty file it returns false and changes nothing but the
  list of the file operations issued: the entries stay as they were, empty only when
  they were empty before. It never changes the dirty flag.
\<close>

theorem encode_decode_roundtrip:
  "offset_index_from_buf (offset_index_to_buf ps) = ps \<and>
   length (offset_index_to_buf ps) = 8 * length ps \<and>
   offset_index_to_buf [] = [] \<and>
   (needs_persistence s \<longrightarrow>
      out_data (snd (flush None s)) = offset_index_to_buf (positions s)) \<and>
   (out_data s \<noteq> [] \<longrightarrow>
      materialize_index None s =
        (ready True,
         (issue [file_size, file_read] s)\<lparr>positions := offset_index_from_buf (out_data s)\<rparr>)) \<and>
   (out_data s = offset_index_to_buf ps \<longrightarrow> ps \<noteq> [] \<longrightarrow>
      materialize_index None s =
        (ready True, (issue [file_size, file_read] s)\<lparr>positions := ps\<rparr>)) \<and>
   (needs_persistence s \<longrightarrow>
      materialize_index None (snd (flush None s)) =
        (ready (positions s \<noteq> []), issue [file_size, file_read] (snd (flush None s)))) \<and>
   (out_data s = [] \<longrightarrow>
      materialize_index None s = (ready False, issue [file_size, file_read] s)) \<and>
   positions (issue [file_size, file_read] s) = positions s \<and>
   needs_persistence (snd (materialize_index fault s)) = needs_persistence s"
proof -
  have gen: "materialize_index None t =
        (ready True,
         (issue [file_size, file_read] t)\<lparr>positions := offset_index_from_buf (out_data t)\<rparr>)"
    if "out_data t \<noteq> []" for t
    using that by (simp add: materialize_index_def Let_def)
  have enc: "materialize_index None s =
        (ready True, (issue [file_size, file_read] s)\<lparr>positions := ps\<rparr>)"
    if "out_data s = offset_index_to_buf ps" "ps \<noteq> []"
  proof -
    have "out_data s \<noteq> []" using that by (simp add: to_buf_empty_iff)
    then show ?thesis using gen [of s] that(1) by (simp add: from_buf_to_buf)
  qed
  have back_in: "materialize_index None (snd (flush None s)) =
        (ready (positions s \<noteq> []), issue [file_size, file_read] (snd (flush None s)))"
    if d: "needs_persistence s"
  proof -
    let ?t = "snd (flush None s)"
    have data: "out_data ?t = offset_index_to_buf (positions s)"
      using d by (rule flush_None_data)
    have pos: "positions ?t = positions s" by (rule flush_frame)
    show ?thesis
    proof (cases "positions s = []")
      case True
      then show ?thesis by (simp add: materialize_index_def data)
    next
      case False
      then have ne: "offset_index_to_buf (positions s) \<noteq> []" by (simp add: to_buf_empty_iff)
      have "issue [file_size, file_read] ?t\<lparr>positions := positions s\<rparr> = issue [file_size, file_read] ?t"
        using pos by (simp add: issue_def)
      then show ?thesis using False ne
        by (simp add: materialize_index_def data from_buf_to_buf)
    qed
  qed
  have empty: "materialize_index None s = (ready False, issue [file_size, file_read] s)"
    if "out_data s = []"
    using that by (simp add: materialize_index_def)
  have fr: "positions (issue [file_size, file_read] s) = positions s"
    by (simp add: issue_def)
  show ?thesis
    using gen [of s] enc back_in empty fr
    by (simp add: from_buf_to_buf length_to_buf materialize_index_flag flush_None_data)
qed

theorem encode_decode_roundtrip_witness:
  "offset_index_to_buf [(7, 64)] = [7, 0, 0, 0, 64, 0, 0, 0] \<and>
   offset_index_from_buf [7, 0, 0, 0, 64, 0, 0, 0] = [(7, 64)] \<and>
   out_data (make_index [7, 0, 0, 0, 64, 0, 0, 0] 100 10 100) = offset_index_to_buf [(7, 64)] \<and>
   materialize_index None (make_index [7, 0, 0, 0, 64, 0, 0, 0] 100 10 100) =
     (ready True,
      (make_index [7, 0, 0, 0, 64, 0, 0, 0] 100 10 100)
        \<lparr>out_ops := [file_size, file_read], positions := [(7, 64)]\<rparr>) \<and>
   needs_persistence
     ((make_index [] 100 10 100)\<lparr>positions := [(7, 64)], needs_persistence := True\<rparr>) \<and>
   out_data (snd (flush None
     ((make_index [] 100 10 100)\<lparr>positions := [(7, 64)], needs_persistence := True\<rparr>))) =
     [7, 0, 0, 0, 64, 0, 0, 0] \<and>
   out_data (make_index [] 100 10 100) = [] \<and>
   materialize_index None (make_index [] 100 10 100) =
     (ready False, (make_index [] 100 10 100)\<lparr>out_ops := [file_size, file_read]\<rparr>)"
proof -
  let ?f = "make_index [7, 0, 0, 0, 64, 0, 0, 0] 100 10 100"
  let ?d = "(make_index [] 100 10 100)\<lparr>positions := [(7, 64)], needs_persistence := True\<rparr>"
  let ?c = "make_index [] 100 10 100"
  have e: "offset_index_to_buf [(7, 64)] = [7, 0, 0, 0, 64, 0, 0, 0]"
    by (simp add: u32_to_bytes_def drop_bit_eq_div)
  have h1: "out_data ?f = offset_index_to_buf [(7, 64)]"
    unfolding e by (simp add: make_index_def)
  have h2: "[(7 :: u32, 64 :: u32)] \<noteq> []" by simp
  have h3: "needs_persistence ?d" by simp
  have h4: "out_data ?c = []" by (simp add: make_index_def)
  have pd: "positions ?d = [(7, 64)]" by simp
  note rt = encode_decode_roundtrip [of "[(7, 64)]" ?f None, THEN conjunct1]
  note ld = encode_decode_roundtrip [of "[(7, 64)]" ?f None, THEN conjunct2, THEN conjunct2,
    THEN conjunct2, THEN conjunct2, THEN conjunct2, THEN conjunct1, THEN mp, THEN mp, OF h1 h2]
  note wr = encode_decode_roundtrip [of "[(7, 64)]" ?d None, THEN conjunct2, THEN conjunct2,
    THEN conjunct2, THEN conjunct1, THEN mp, OF h3]
  note em = encode_decode_roundtrip [of "[(7, 64)]" ?c None, THEN conjunct2, THEN conjunct2,
    THEN conjunct2, THEN conjunct2, THEN conjunct2, THEN conjunct2, THEN conjunct2,
    THEN conjunct1, THEN mp, OF h4]
  have a: "offset_index_from_buf [7, 0, 0, 0, 64, 0, 0, 0] = [(7, 64)]"
    using rt unfolding e .
  have b: "materialize_index None ?f = (ready True, ?f\<lparr>out_ops := [file_size, file_read], positions := [(7, 64)]\<rparr>)"
    using ld by (simp add: issue_def make_index_def)
  have c: "out_data (snd (flush None ?d)) = [7, 0, 0, 0, 64, 0, 0, 0]"
    using wr unfolding pd e .
  have d: "materialize_index None ?c = (ready False, ?c\<lparr>out_ops := [file_size, file_read]\<rparr>)"
    using em by (simp add: issue_def make_index_def)
  show ?thesis using e a h1 b h3 c h4 d by simp
qed

section \<open>The invariant of the entry list\<close>

text \<open>
  Claim C2, as stated, fails: tracking the same offset twice, each time with enough
  payload to reach the step, stores two entries with the same relative offset, because
  \<^verbatim>\<open>maybe_track\<close> drops an offset only when it is strictly below the last entry.
\<close>

theorem duplicate_entries_counterexample:
  "run [Track 105 0 10, Track 105 64 10] (make_index [] 100 10 100) =
   Inr \<lparr>out_data = [], out_ops = [], base = 100, step = 10, acc = 0, needs_persistence = True,
        last_seen_offset = 105, positions = [(5, 0), (5, 64)]\<rparr> \<and>
   \<not> distinct (map fst [(5::u32, 0::u32), (5, 64)])"
  by (simp add: make_index_def maybe_track_def relative_def word_sle_eq Let_def)

text \<open>
  Claim C2, amended. After every sequence of \<^verbatim>\<open>maybe_track\<close>, \<^verbatim>\<open>lower_bound_pair\<close>, \<^verbatim>\<open>truncate\<close>,
  \<^verbatim>\<open>materialize_index\<close> and \<^verbatim>\<open>flush\<close> that starts from a fresh index on an empty file and
  in which no assertion fails, whatever file operations fail, the entry list is sorted
  by relative offset in non-decreasing order.
\<close>

theorem entries_stay_sorted:
  "run xs (make_index [] b st l) = Inr s \<Longrightarrow> sorted (map fst (positions s))"
proof -
  assume r: "run xs (make_index [] b st l) = Inr s"
  have "entries_sorted (make_index [] b st l)" by (simp add: entries_sorted_def make_index_def)
  then have "entries_sorted s" using r by (rule run_sorted)
  then show ?thesis by (simp add: entries_sorted_def)
qed

theorem entries_stay_sorted_witness:
  "run [Track 105 0 10, Flush None, Track 109 64 10, Truncate 108 None, Load None, Lookup 107]
     (make_index [] 100 10 100) =
   Inr \<lparr>out_data = [5, 0, 0, 0, 0, 0, 0, 0],
        out_ops = [file_truncate, file_write, file_flush, file_close,
                   file_truncate, file_write, file_flush, file_close, file_size, file_read],
        base = 100, step = 10, acc = 0, needs_persistence = False, last_seen_offset = 108,
        positions = [(5, 0)]\<rparr> \<and>
   sorted (map fst [(5::u32, 0::u32)])"
proof -
  let ?xs = "[Track 105 0 10, Flush None, Track 109 64 10, Truncate 108 None, Load None, Lookup 107]"
  have r: "run ?xs (make_index [] 100 10 100) =
   Inr \<lparr>out_data = [5, 0, 0, 0, 0, 0, 0, 0],
        out_ops = [file_truncate, file_write, file_flush, file_close,
                   file_truncate, file_write, file_flush, file_close, file_size, file_read],
        base = 100, step = 10, acc = 0, needs_persistence = False, last_seen_offset = 108,
        positions = [(5, 0)]\<rparr>"
    by (simp add: make_index_def maybe_track_def relative_def word_sle_eq Let_def flush_def
          flush_io_def issue_def truncate_def truncate_positions_def std_lower_bound_def
          lower_bound_loop.simps materialize_index_def lower_bound_pair_def u32_to_bytes_def
          u32_from_bytes_def drop_bit_eq_div push_bit_eq_mult)
  show ?thesis using r entries_stay_sorted [OF r] by simp
qed

end
